theory Spec2Isabelle
  imports Main "HOL-Library.List_Lexorder" "HOL-Library.Sublist" "HOL-Library.Multiset"
begin

section \<open>Python strings\<close>

text \<open>
  The script \<^verbatim>\<open>scripts/generate_agent_metadata.py\<close> works on Python \<^verbatim>\<open>str\<close> values, which
  are sequences of Unicode code points. A character is modelled as its code point, a string
  as the list of its code points. \<open>pystr\<close> turns a literal of 8-bit characters into such a
  list, for writing concrete inputs.
\<close>

type_synonym pychar = nat
type_synonym pystr = "pychar list"

definition pystr :: "string \<Rightarrow> pystr" where
  "pystr s = map of_char s"

definition LF :: pychar where "LF = 0x0A"
definition CR :: pychar where "CR = 0x0D"
definition SPACE :: pychar where "SPACE = 0x20"
definition HASH :: pychar where "HASH = 0x23"
definition SLASH :: pychar where "SLASH = 0x2F"

text \<open>
  \<^verbatim>\<open>str.strip()\<close> without argument and the class \<^verbatim>\<open>\s\<close> of a \<^verbatim>\<open>str\<close> pattern both use
  the interpreter's whitespace test (\<^verbatim>\<open>str.isspace\<close> on one character):
  U+0009..U+000D, U+001C..U+0020, U+0085, U+00A0, U+1680, U+2000..U+200A, U+2028, U+2029,
  U+202F, U+205F and U+3000.
\<close>

definition isspace :: "pychar \<Rightarrow> bool" where
  "isspace c \<longleftrightarrow>
     (0x09 \<le> c \<and> c \<le> 0x0D) \<or> (0x1C \<le> c \<and> c \<le> 0x20) \<or> c = 0x85 \<or> c = 0xA0 \<or>
     c = 0x1680 \<or> (0x2000 \<le> c \<and> c \<le> 0x200A) \<or> c = 0x2028 \<or> c = 0x2029 \<or>
     c = 0x202F \<or> c = 0x205F \<or> c = 0x3000"

text \<open>
  The line boundaries of \<^verbatim>\<open>str.splitlines()\<close>: \<^verbatim>\<open>\n\<close>, \<^verbatim>\<open>\v\<close>, \<^verbatim>\<open>\f\<close>, \<^verbatim>\<open>\r\<close>
  (and \<^verbatim>\<open>\r\n\<close> as one boundary), U+001C, U+001D, U+001E, U+0085, U+2028 and U+2029.
\<close>

definition is_linebreak :: "pychar \<Rightarrow> bool" where
  "is_linebreak c \<longleftrightarrow>
     (0x0A \<le> c \<and> c \<le> 0x0D) \<or> (0x1C \<le> c \<and> c \<le> 0x1E) \<or> c = 0x85 \<or>
     c = 0x2028 \<or> c = 0x2029"

definition not_linebreak :: "pychar \<Rightarrow> bool" where
  "not_linebreak c \<longleftrightarrow> \<not> is_linebreak c"

text \<open>\<^verbatim>\<open>s.strip()\<close>: leading and trailing whitespace removed.\<close>

definition strip :: "pystr \<Rightarrow> pystr" where
  "strip s = rev (dropWhile isspace (rev (dropWhile isspace s)))"

text \<open>\<^verbatim>\<open>s.startswith('#')\<close>.\<close>

fun startswith_hash :: "pystr \<Rightarrow> bool" where
  "startswith_hash [] = False"
| "startswith_hash (c # cs) = (c = HASH)"

text \<open>\<^verbatim>\<open>s.replace('\n', ' ')\<close>.\<close>

definition replace_nl :: "pystr \<Rightarrow> pystr" where
  "replace_nl s = map (\<lambda>c. if c = LF then SPACE else c) s"

text \<open>
  \<^verbatim>\<open>s.splitlines()\<close>: the text up to the next line boundary is a line, the boundary is
  dropped (\<^verbatim>\<open>\r\n\<close> counts as one), and the scan goes on behind it. The empty string has
  no line, and a boundary at the very end opens no further line.
\<close>

fun drop_eol :: "pystr \<Rightarrow> pystr" where
  "drop_eol [] = []"
| "drop_eol [c] = []"
| "drop_eol (c # d # ds) = (if c = CR \<and> d = LF then ds else d # ds)"

lemma length_drop_eol: "length (drop_eol s) \<le> length s"
  by (induction s rule: drop_eol.induct) auto

lemma length_drop_eol_less: "s \<noteq> [] \<Longrightarrow> length (drop_eol s) < length s"
  by (induction s rule: drop_eol.induct) auto

function splitlines :: "pystr \<Rightarrow> pystr list" where
  "splitlines [] = []"
| "splitlines (c # cs) =
     takeWhile not_linebreak (c # cs) # splitlines (drop_eol (dropWhile not_linebreak (c # cs)))"
  by pat_completeness auto
termination
proof (relation "measure length")
  fix c :: pychar and cs :: pystr
  have "length (drop_eol (dropWhile not_linebreak (c # cs))) \<le> length (dropWhile not_linebreak (c # cs))"
    by (rule length_drop_eol)
  moreover have "dropWhile not_linebreak (c # cs) \<noteq> [] \<Longrightarrow>
      length (drop_eol (dropWhile not_linebreak (c # cs))) < length (dropWhile not_linebreak (c # cs))"
    by (rule length_drop_eol_less)
  moreover have "length (dropWhile not_linebreak (c # cs)) \<le> length (c # cs)"
    by (rule length_dropWhile_le)
  ultimately have "length (drop_eol (dropWhile not_linebreak (c # cs))) < length (c # cs)"
    by (cases "dropWhile not_linebreak (c # cs) = []") auto
  then show "(drop_eol (dropWhile not_linebreak (c # cs)), c # cs) \<in> measure length"
    by simp
qed simp

section \<open>The two regular expressions\<close>

text \<open>
  \<^verbatim>\<open>re.sub(r'^#+\s*', '', line)\<close>: without the MULTILINE flag \<^verbatim>\<open>^\<close> matches at the start
  of the string only, so there is at most one match, at position 0. It takes the longest
  run of \<^verbatim>\<open>#\<close> (at least one) and then the longest run of whitespace; nothing follows in
  the pattern, so there is no backtracking. A line that does not start with \<^verbatim>\<open>#\<close> is
  returned as it is.
\<close>

definition is_hash :: "pychar \<Rightarrow> bool" where
  "is_hash c \<longleftrightarrow> c = HASH"

definition re_sub_header :: "pystr \<Rightarrow> pystr" where
  "re_sub_header line =
     (if startswith_hash line then dropWhile isspace (dropWhile is_hash line) else line)"

text \<open>
  \<^verbatim>\<open>re.split(r"\n\s*\n", s)\<close>. \<open>match_ws_nl\<close> matches the tail \<^verbatim>\<open>\s*\n\<close> of the pattern at
  the start of its argument and returns what follows the match: the star is greedy, so it
  first takes a whitespace character and tries the rest, and only when that fails does it
  stop and ask for the newline here. \<open>match_sep\<close> matches the whole pattern at the start of
  its argument, \<open>search_sep\<close> finds the leftmost match and returns the text before and the
  text after it, and \<open>re_split\<close> cuts the string at every match, searching again behind
  each one.
\<close>

fun match_ws_nl :: "pystr \<Rightarrow> pystr option" where
  "match_ws_nl [] = None"
| "match_ws_nl (c # cs) =
     (case (if isspace c then match_ws_nl cs else None) of
        Some r \<Rightarrow> Some r
      | None \<Rightarrow> if c = LF then Some cs else None)"

fun match_sep :: "pystr \<Rightarrow> pystr option" where
  "match_sep [] = None"
| "match_sep (c # cs) = (if c = LF then match_ws_nl cs else None)"

fun search_sep :: "pystr \<Rightarrow> (pystr \<times> pystr) option" where
  "search_sep [] = None"
| "search_sep (c # cs) =
     (case match_sep (c # cs) of
        Some r \<Rightarrow> Some ([], r)
      | None \<Rightarrow> (case search_sep cs of
                  None \<Rightarrow> None
                | Some (b, a) \<Rightarrow> Some (c # b, a)))"

lemma match_ws_nl_length: "match_ws_nl s = Some r \<Longrightarrow> length r < length s"
  by (induction s arbitrary: r) (auto split: option.splits if_splits)

lemma match_sep_length: "match_sep s = Some r \<Longrightarrow> length r < length s"
  by (cases s) (auto split: if_splits dest: match_ws_nl_length)

lemma search_sep_length: "search_sep s = Some (b, a) \<Longrightarrow> length a < length s"
proof (induction s arbitrary: b a)
  case Nil
  then show ?case by simp
next
  case (Cons c cs)
  show ?case
  proof (cases "match_sep (c # cs)")
    case (Some r)
    with Cons.prems have "a = r" by simp
    with Some show ?thesis by (simp only: match_sep_length)
  next
    case None
    with Cons.prems obtain b' where "search_sep cs = Some (b', a)"
      by (auto split: option.splits)
    then have "length a < length cs" by (rule Cons.IH)
    then show ?thesis by simp
  qed
qed

function re_split :: "pystr \<Rightarrow> pystr list" where
  "re_split s = (case search_sep s of None \<Rightarrow> [s] | Some (b, a) \<Rightarrow> b # re_split a)"
  by pat_completeness auto
termination
  by (relation "measure length") (auto dest: search_sep_length)

declare re_split.simps [simp del]

section \<open>The extractor\<close>

text \<open>
  The first loop of \<^verbatim>\<open>extract_title_and_description\<close>: the title is taken from the first
  line that starts with \<^verbatim>\<open>#\<close> once it is stripped; \<open>None\<close> is Python's \<^verbatim>\<open>None\<close>, the
  value \<^verbatim>\<open>title\<close> keeps when the loop ends without a \<^verbatim>\<open>break\<close>.
\<close>

fun header_loop :: "pystr list \<Rightarrow> pystr option" where
  "header_loop [] = None"
| "header_loop (line # rest) =
     (let line' = strip line in
      if startswith_hash line' then Some (strip (re_sub_header line'))
      else header_loop rest)"

text \<open>The fallback loop: the first line that is not empty once stripped.\<close>

fun fallback_loop :: "pystr list \<Rightarrow> pystr option" where
  "fallback_loop [] = None"
| "fallback_loop (line # rest) =
     (if strip line \<noteq> [] then Some (strip line) else fallback_loop rest)"

text \<open>The loop over the paragraphs.\<close>

fun desc_loop :: "pystr list \<Rightarrow> pystr option" where
  "desc_loop [] = None"
| "desc_loop (p # ps) =
     (let p' = strip p in
      if p' = [] then desc_loop ps
      else if startswith_hash p' then desc_loop ps
      else Some (strip (replace_nl p')))"

text \<open>Truthiness of an optional string: \<^verbatim>\<open>not title\<close> holds for \<^verbatim>\<open>None\<close> and for \<^verbatim>\<open>''\<close>.\<close>

fun py_not :: "pystr option \<Rightarrow> bool" where
  "py_not None = True"
| "py_not (Some s) = (s = [])"

text \<open>\<^verbatim>\<open>x or ''\<close>.\<close>

fun or_empty :: "pystr option \<Rightarrow> pystr" where
  "or_empty None = []"
| "or_empty (Some s) = s"

definition find_title :: "pystr \<Rightarrow> pystr option" where
  "find_title text =
     (let title = header_loop (splitlines text) in
      if py_not title then
        (case fallback_loop (splitlines text) of Some t \<Rightarrow> Some t | None \<Rightarrow> title)
      else title)"

definition find_desc :: "pystr \<Rightarrow> pystr option" where
  "find_desc text = desc_loop (re_split (strip text))"

definition extract_title_and_description :: "pystr \<Rightarrow> pystr \<times> pystr" where
  "extract_title_and_description text = (or_empty (find_title text), or_empty (find_desc text))"

section \<open>The scanner\<close>

text \<open>
  A \<^verbatim>\<open>Path\<close> is the list of its components. All paths the script handles lie below
  \<^verbatim>\<open>ROOT\<close>, the parent of the script's directory, and are kept relative to it here: the
  components of \<^verbatim>\<open>ROOT\<close> are a common prefix of every path that is compared, and
  \<^verbatim>\<open>relative_to(ROOT)\<close> removes exactly that prefix. Paths compare as \<^verbatim>\<open>PurePosixPath\<close>
  has it: as the lists of their components, and components compare as strings, by code
  point, a proper prefix first. In that order \<^verbatim>\<open>a/x.md\<close> stands before \<^verbatim>\<open>a-b.md\<close>, which
  is not the order of the two path strings.
\<close>

type_synonym path = "pystr list"

text \<open>\<^verbatim>\<open>str(p)\<close>: the components joined with \<^verbatim>\<open>/\<close>, or \<^verbatim>\<open>.\<close> for the empty path.\<close>

fun path_str :: "path \<Rightarrow> pystr" where
  "path_str [] = pystr ''.''"
| "path_str [c] = c"
| "path_str (c # d # ds) = c @ SLASH # path_str (d # ds)"

text \<open>\<^verbatim>\<open>p.name\<close>: the last component, or the empty string.\<close>

fun path_name :: "path \<Rightarrow> pystr" where
  "path_name [] = []"
| "path_name (c # cs) = last (c # cs)"

text \<open>
  The directory tree is the list of its entries, in the order in which the operating
  system hands them out; that order is not specified. An entry is a directory or a file,
  and a file comes with what \<^verbatim>\<open>read_text(encoding='utf-8')\<close> does on it: it returns the
  decoded text or raises. Every path can be examined: \<^verbatim>\<open>exists\<close> and \<^verbatim>\<open>is_dir\<close> answer
  for each of them, and only reading may raise.
\<close>

datatype read_error = UnicodeDecodeError | PermissionError | OtherOSError

datatype node = Dir | File "read_error + pystr"

type_synonym tree = "(path \<times> node) list"

definition path_exists :: "tree \<Rightarrow> path \<Rightarrow> bool" where
  "path_exists fs p \<longleftrightarrow> map_of fs p \<noteq> None"

definition is_dir :: "tree \<Rightarrow> path \<Rightarrow> bool" where
  "is_dir fs p \<longleftrightarrow> map_of fs p = Some Dir"

definition read_text :: "tree \<Rightarrow> path \<Rightarrow> read_error + pystr" where
  "read_text fs p =
     (case map_of fs p of
        None \<Rightarrow> Inl OtherOSError
      | Some Dir \<Rightarrow> Inl OtherOSError
      | Some (File r) \<Rightarrow> r)"

text \<open>\<^verbatim>\<open>path.glob('**/*')\<close>: every entry strictly below \<open>path\<close>, in the tree's own order.\<close>

definition glob_all :: "tree \<Rightarrow> path \<Rightarrow> path list" where
  "glob_all fs path = filter (strict_prefix path) (map fst fs)"

record item =
  item_path :: pystr
  item_type :: pystr
  item_filename :: pystr
  item_title :: pystr
  item_description :: pystr

text \<open>
  The loop of \<^verbatim>\<open>scan_section\<close> over the sorted paths: a directory is passed over, a file
  whose read raises is passed over (\<^verbatim>\<open>except Exception: continue\<close>), any other file
  appends its record.
\<close>

fun scan_loop :: "tree \<Rightarrow> pystr \<Rightarrow> path list \<Rightarrow> item list \<Rightarrow> item list" where
  "scan_loop fs name [] items = items"
| "scan_loop fs name (p # ps) items =
     (if is_dir fs p then scan_loop fs name ps items
      else
        (case read_text fs p of
           Inl e \<Rightarrow> scan_loop fs name ps items
         | Inr text \<Rightarrow>
             (case extract_title_and_description text of
                (title, desc) \<Rightarrow>
                  scan_loop fs name ps
                    (items @
                     [\<lparr>item_path = path_str p, item_type = name, item_filename = path_name p,
                       item_title = title, item_description = desc\<rparr>]))))"

definition scan_section :: "tree \<Rightarrow> pystr \<Rightarrow> path \<Rightarrow> item list" where
  "scan_section fs name path =
     (if \<not> path_exists fs path then []
      else scan_loop fs name (sort (glob_all fs path)) [])"

definition GITHUB_DIR :: path where
  "GITHUB_DIR = [pystr ''.github'']"

definition SECTIONS :: "(pystr \<times> path) list" where
  "SECTIONS =
     [(pystr ''prompts'', GITHUB_DIR @ [pystr ''prompts'']),
      (pystr ''toolsets'', GITHUB_DIR @ [pystr ''toolsets'']),
      (pystr ''chatmodes'', GITHUB_DIR @ [pystr ''chatmodes''])]"

text \<open>
  \<^verbatim>\<open>main\<close>: the loop over the sections in the order of their declaration, then the document
  that is written (its \<^verbatim>\<open>generated_at\<close> is the time of the run followed by \<^verbatim>\<open>Z\<close>) and the
  number of entries that is printed.
\<close>

fun main_loop :: "tree \<Rightarrow> (pystr \<times> path) list \<Rightarrow> item list \<Rightarrow> item list" where
  "main_loop fs [] all_items = all_items"
| "main_loop fs ((name, path) # rest) all_items =
     main_loop fs rest (all_items @ scan_section fs name path)"

record document =
  doc_generated_at :: pystr
  doc_items :: "item list"

record run =
  written :: document
  printed_count :: nat

definition main :: "tree \<Rightarrow> pystr \<Rightarrow> run" where
  "main fs now =
     (let all_items = main_loop fs SECTIONS [] in
      \<lparr>written = \<lparr>doc_generated_at = now @ pystr ''Z'', doc_items = all_items\<rparr>,
       printed_count = length all_items\<rparr>)"

text \<open>
  What the properties of the scanner speak of: \<^verbatim>\<open>s.split('/')\<close>, which gives a path string
  its components back; a tree no path of which occurs twice and whose names are not empty
  and hold no \<^verbatim>\<open>/\<close>; a tree without the entry of one path; and the entries a scan reads.
\<close>

fun split_slash :: "pystr \<Rightarrow> pystr list" where
  "split_slash [] = [[]]"
| "split_slash (c # cs) =
     (if c = SLASH then [] # split_slash cs
      else (c # hd (split_slash cs)) # tl (split_slash cs))"

definition item_parts :: "item \<Rightarrow> path" where
  "item_parts it = split_slash (item_path it)"

definition wf_name :: "pystr \<Rightarrow> bool" where
  "wf_name c \<longleftrightarrow> c \<noteq> [] \<and> SLASH \<notin> set c"

definition wf_tree :: "tree \<Rightarrow> bool" where
  "wf_tree fs \<longleftrightarrow> distinct (map fst fs) \<and> list_all (list_all wf_name) (map fst fs)"

definition other_than :: "path \<Rightarrow> path \<times> node \<Rightarrow> bool" where
  "other_than p e \<longleftrightarrow> fst e \<noteq> p"

definition without :: "tree \<Rightarrow> path \<Rightarrow> tree" where
  "without fs p = filter (other_than p) fs"

definition readable :: "tree \<Rightarrow> path \<Rightarrow> bool" where
  "readable fs p \<longleftrightarrow> \<not> is_dir fs p \<and> \<not> isl (read_text fs p)"

definition scan_of :: "tree \<Rightarrow> pystr \<times> path \<Rightarrow> item list" where
  "scan_of fs s = scan_section fs (fst s) (snd s)"

section \<open>The notions the properties speak of\<close>

text \<open>
  The lines of a text, each one stripped; the first of them that is not empty; the first of
  them that starts with a header marker; a line without its leading markers and the
  whitespace behind them; the stripped paragraphs of the stripped text; and the description
  as the first paragraph that is no header, its newlines turned into spaces.
\<close>

definition stripped_lines :: "pystr \<Rightarrow> pystr list" where
  "stripped_lines text = map strip (splitlines text)"

definition nonempty :: "pystr \<Rightarrow> bool" where
  "nonempty s \<longleftrightarrow> s \<noteq> []"

definition first_nonempty_line :: "pystr \<Rightarrow> pystr option" where
  "first_nonempty_line text = find nonempty (stripped_lines text)"

definition first_header_line :: "pystr \<Rightarrow> pystr option" where
  "first_header_line text = find startswith_hash (stripped_lines text)"

definition remove_markers :: "pystr \<Rightarrow> pystr" where
  "remove_markers line = dropWhile isspace (dropWhile is_hash line)"

definition paragraphs :: "pystr \<Rightarrow> pystr list" where
  "paragraphs text = map strip (re_split (strip text))"

definition not_header :: "pystr \<Rightarrow> bool" where
  "not_header p \<longleftrightarrow> \<not> startswith_hash p"

definition first_paragraph_description :: "pystr \<Rightarrow> pystr" where
  "first_paragraph_description text =
     (case find not_header (paragraphs text) of
        None \<Rightarrow> []
      | Some p \<Rightarrow> strip (replace_nl p))"

text \<open>A string that is its own stripped form: empty, or with no whitespace at either end.\<close>

definition trimmed :: "pystr \<Rightarrow> bool" where
  "trimmed s \<longleftrightarrow> s = [] \<or> (\<not> isspace (hd s) \<and> \<not> isspace (last s))"

section \<open>Characters and stripping\<close>

lemmas char_defs = LF_def CR_def SPACE_def HASH_def SLASH_def isspace_def is_linebreak_def
  not_linebreak_def is_hash_def

lemma isspace_LF: "isspace LF"
  by (simp add: isspace_def LF_def)

lemma not_isspace_HASH: "\<not> isspace HASH"
  by (simp add: isspace_def HASH_def)

lemma linebreak_isspace: "is_linebreak c \<Longrightarrow> isspace c"
  by (auto simp: is_linebreak_def isspace_def)

lemma is_linebreak_LF: "is_linebreak LF"
  by (simp add: is_linebreak_def LF_def)

lemma last_dropWhile: "dropWhile P xs \<noteq> [] \<Longrightarrow> last (dropWhile P xs) = last xs"
  by (induction xs) (auto split: if_splits)


lemma strip_Nil: "strip [] = []"
  by (simp add: strip_def)

lemma set_strip: "set (strip s) \<subseteq> set s"
proof -
  have "set (strip s) \<subseteq> set (dropWhile isspace s)"
    unfolding strip_def using set_dropWhileD [of _ isspace "rev (dropWhile isspace s)"] by auto
  also have "\<dots> \<subseteq> set s"
    using set_dropWhileD [of _ isspace s] by auto
  finally show ?thesis .
qed

lemma strip_eq_Nil_iff: "strip s = [] \<longleftrightarrow> (\<forall>c\<in>set s. isspace c)"
proof
  assume "strip s = []"
  then have "\<forall>c\<in>set (dropWhile isspace s). isspace c"
    by (simp add: strip_def)
  then have "dropWhile isspace s = []"
    using hd_dropWhile [of isspace s] by (cases "dropWhile isspace s") auto
  then show "\<forall>c\<in>set s. isspace c"
    by simp
next
  assume "\<forall>c\<in>set s. isspace c"
  then show "strip s = []"
    by (auto simp: strip_def dest: set_dropWhileD)
qed

lemma trimmed_strip: "trimmed (strip s)"
proof (cases "strip s = []")
  case True
  then show ?thesis by (simp add: trimmed_def)
next
  case False
  let ?t = "dropWhile isspace s"
  let ?u = "dropWhile isspace (rev ?t)"
  from False have u: "?u \<noteq> []" by (simp add: strip_def)
  have t: "?t \<noteq> []"
  proof
    assume "?t = []"
    then have "?u = []" by (simp only: rev.simps dropWhile.simps)
    with u show False by contradiction
  qed
  have "last (strip s) = hd ?u"
    using u by (simp add: strip_def last_rev)
  moreover have "\<not> isspace (hd ?u)"
    using u by (rule hd_dropWhile)
  moreover have "hd (strip s) = last ?u"
    using u by (simp add: strip_def hd_rev)
  moreover have "last ?u = last (rev ?t)"
    using u by (rule last_dropWhile)
  moreover have "last (rev ?t) = hd ?t"
    using t by (simp add: last_rev)
  moreover have "\<not> isspace (hd ?t)"
    using t by (rule hd_dropWhile)
  ultimately show ?thesis
    by (simp add: trimmed_def)
qed

lemma dropWhile_id: "xs = [] \<or> \<not> P (hd xs) \<Longrightarrow> dropWhile P xs = xs"
  by (cases xs) auto

lemma strip_trimmed: "trimmed s \<Longrightarrow> strip s = s"
proof (cases "s = []")
  case True
  then show ?thesis by (simp add: strip_def)
next
  case False
  assume "trimmed s"
  with False have h: "\<not> isspace (hd s)" and l: "\<not> isspace (last s)"
    by (simp_all add: trimmed_def)
  from h have "dropWhile isspace s = s"
    by (simp add: dropWhile_id)
  moreover have "dropWhile isspace (rev s) = rev s"
    using False l by (intro dropWhile_id) (simp add: hd_rev)
  ultimately show ?thesis
    by (simp add: strip_def)
qed

lemma strip_idem: "strip (strip s) = strip s"
  by (rule strip_trimmed) (rule trimmed_strip)


lemma splitlines_no_linebreak:
  "l \<in> set (splitlines s) \<Longrightarrow> c \<in> set l \<Longrightarrow> \<not> is_linebreak c"
proof (induction s rule: splitlines.induct)
  case 1
  then show ?case by simp
next
  case (2 x xs)
  from "2.prems"(1) consider "l = takeWhile not_linebreak (x # xs)"
    | "l \<in> set (splitlines (drop_eol (dropWhile not_linebreak (x # xs))))"
    by auto
  then show ?case
  proof cases
    case 1
    with "2.prems"(2) have "not_linebreak c"
      by (auto dest: set_takeWhileD)
    then show ?thesis by (simp add: not_linebreak_def)
  next
    case 2
    then show ?thesis using "2.IH" "2.prems"(2) by blast
  qed
qed

lemma set_drop_eol: "s \<noteq> [] \<Longrightarrow> set s \<subseteq> {hd s, LF} \<union> set (drop_eol s)"
  by (induction s rule: drop_eol.induct) auto

lemma splitlines_all_space:
  "(\<forall>l\<in>set (splitlines s). \<forall>c\<in>set l. isspace c) \<Longrightarrow> \<forall>c\<in>set s. isspace c"
proof (induction s rule: splitlines.induct)
  case 1
  then show ?case by simp
next
  case (2 x xs)
  let ?s = "x # xs"
  let ?tw = "takeWhile not_linebreak ?s"
  let ?dw = "dropWhile not_linebreak ?s"
  have tw: "\<forall>c\<in>set ?tw. isspace c"
    using "2.prems" by (simp del: takeWhile.simps dropWhile.simps)
  have rest: "\<forall>c\<in>set (drop_eol ?dw). isspace c"
    using "2.prems" by (intro "2.IH") (simp del: takeWhile.simps dropWhile.simps)
  have dw: "\<forall>c\<in>set ?dw. isspace c"
  proof (cases "?dw = []")
    case True
    then show ?thesis by (simp only: list.set ball_empty)
  next
    case False
    then have "\<not> not_linebreak (hd ?dw)" by (rule hd_dropWhile)
    then have "isspace (hd ?dw)"
      by (simp add: not_linebreak_def linebreak_isspace)
    moreover have "set ?dw \<subseteq> {hd ?dw, LF} \<union> set (drop_eol ?dw)"
      using False by (rule set_drop_eol)
    ultimately show ?thesis using rest isspace_LF by blast
  qed
  have "set ?s = set ?tw \<union> set ?dw"
    by (metis set_append takeWhile_dropWhile_id)
  with tw dw show ?case by blast
qed

lemma header_loop_None:
  "(\<forall>l\<in>set ls. \<not> startswith_hash (strip l)) \<Longrightarrow> header_loop ls = None"
  by (induction ls) (simp_all add: Let_def)

lemma fallback_loop_None:
  "(\<forall>l\<in>set ls. strip l = []) \<Longrightarrow> fallback_loop ls = None"
  by (induction ls) simp_all

lemma re_split_Nil: "re_split [] = [[]]"
  by (simp add: re_split.simps)

section \<open>The title\<close>

lemma header_loop_find:
  "header_loop ls = map_option (\<lambda>l. strip (re_sub_header l)) (find startswith_hash (map strip ls))"
  by (induction ls) (simp_all add: Let_def)

lemma fallback_loop_find: "fallback_loop ls = find nonempty (map strip ls)"
  by (induction ls) (simp_all add: nonempty_def)

lemma find_title_eq:
  "find_title text =
     (let title = map_option (\<lambda>l. strip (re_sub_header l)) (first_header_line text) in
      if py_not title then
        (case first_nonempty_line text of Some t \<Rightarrow> Some t | None \<Rightarrow> title)
      else title)"
  unfolding find_title_def header_loop_find fallback_loop_find first_header_line_def
    first_nonempty_line_def stripped_lines_def by (rule refl)

lemma find_nonempty_header:
  "find nonempty xs = Some l \<Longrightarrow> startswith_hash l \<Longrightarrow> find startswith_hash xs = Some l"
proof (induction xs)
  case Nil
  then show ?case by simp
next
  case (Cons x xs)
  show ?case
  proof (cases "nonempty x")
    case True
    with Cons.prems show ?thesis by simp
  next
    case False
    then have "\<not> startswith_hash x" by (simp add: nonempty_def)
    with False Cons show ?thesis by simp
  qed
qed


lemma find_Some_mem: "find P xs = Some x \<Longrightarrow> x \<in> set xs \<and> P x"
  by (induction xs) (auto split: if_splits)

lemma stripped_line_trimmed: "l \<in> set (stripped_lines text) \<Longrightarrow> trimmed l"
  by (auto simp: stripped_lines_def trimmed_strip)

lemma stripped_line_no_linebreak:
  "l \<in> set (stripped_lines text) \<Longrightarrow> c \<in> set l \<Longrightarrow> \<not> is_linebreak c"
  using set_strip splitlines_no_linebreak by (fastforce simp: stripped_lines_def)

lemma trimmed_remove_markers: "trimmed l \<Longrightarrow> trimmed (remove_markers l)"
proof (cases "remove_markers l = []")
  case True
  then show ?thesis by (simp add: trimmed_def)
next
  case False
  assume l: "trimmed l"
  let ?h = "dropWhile is_hash l"
  from False have r: "dropWhile isspace ?h \<noteq> []"
    by (simp add: remove_markers_def)
  have h: "?h \<noteq> []"
  proof
    assume "?h = []"
    then have "dropWhile isspace ?h = []" by (simp only: dropWhile.simps)
    with r show False by contradiction
  qed
  have "l \<noteq> []"
  proof
    assume "l = []"
    then have "?h = []" by simp
    with h show False by contradiction
  qed
  with l have "\<not> isspace (last l)" by (simp add: trimmed_def)
  moreover have "last (dropWhile isspace ?h) = last ?h" using r by (rule last_dropWhile)
  moreover have "last ?h = last l" using h by (rule last_dropWhile)
  moreover have "\<not> isspace (hd (dropWhile isspace ?h))" using r by (rule hd_dropWhile)
  ultimately show ?thesis
    by (simp add: trimmed_def remove_markers_def)
qed

lemma re_sub_header_markers: "startswith_hash l \<Longrightarrow> re_sub_header l = remove_markers l"
  by (simp add: re_sub_header_def remove_markers_def)

lemma strip_sub_header:
  "trimmed l \<Longrightarrow> startswith_hash l \<Longrightarrow> strip (re_sub_header l) = remove_markers l"
  by (simp add: re_sub_header_markers strip_trimmed trimmed_remove_markers)

lemma set_re_sub_header: "set (re_sub_header l) \<subseteq> set l"
proof -
  have "set (dropWhile isspace (dropWhile is_hash l)) \<subseteq> set l"
    by (meson set_dropWhileD subsetI)
  then show ?thesis by (simp add: re_sub_header_def)
qed

lemma remove_markers_Nil_iff:
  assumes "trimmed l"
  shows "remove_markers l = [] \<longleftrightarrow> (\<forall>c\<in>set l. c = HASH)"
proof
  assume r: "remove_markers l = []"
  have "dropWhile is_hash l = []"
  proof (rule ccontr)
    assume h: "dropWhile is_hash l \<noteq> []"
    then have "l \<noteq> []" by auto
    with assms have "\<not> isspace (last l)" by (simp add: trimmed_def)
    moreover have "last (dropWhile is_hash l) = last l" using h by (rule last_dropWhile)
    moreover have "isspace (last (dropWhile is_hash l))"
      using r h by (simp add: remove_markers_def)
    ultimately show False by simp
  qed
  then show "\<forall>c\<in>set l. c = HASH" by (simp add: is_hash_def)
next
  assume "\<forall>c\<in>set l. c = HASH"
  then have "dropWhile is_hash l = []" by (simp add: is_hash_def)
  then show "remove_markers l = []" by (simp only: remove_markers_def dropWhile.simps)
qed

text \<open>
  C1, as the code has it. When the first non-empty stripped line of a text starts with
  \<^verbatim>\<open>#\<close>, the title is that line without its leading \<^verbatim>\<open>#\<close> characters and the whitespace
  behind them, unless nothing is left of it: then the fallback takes the stripped line
  itself, markers included.
\<close>

theorem title_of_leading_header:
  assumes "first_nonempty_line text = Some l" and "startswith_hash l"
  shows "fst (extract_title_and_description text) =
           (if remove_markers l = [] then l else remove_markers l)"
proof -
  have hdr: "first_header_line text = Some l"
    using assms by (simp add: first_header_line_def first_nonempty_line_def find_nonempty_header)
  have "l \<in> set (stripped_lines text)"
    using assms(1) by (simp add: first_nonempty_line_def find_Some_mem)
  then have "trimmed l" by (rule stripped_line_trimmed)
  then have "strip (re_sub_header l) = remove_markers l"
    using assms(2) by (rule strip_sub_header)
  with hdr assms(1) have "find_title text = Some (if remove_markers l = [] then l else remove_markers l)"
    by (simp add: find_title_eq)
  then show ?thesis
    by (simp add: extract_title_and_description_def)
qed

lemmas eval_defs = extract_title_and_description_def find_title_def find_desc_def strip_def
  re_sub_header_def re_split.simps first_nonempty_line_def first_header_line_def
  stripped_lines_def remove_markers_def nonempty_def paragraphs_def not_header_def
  first_paragraph_description_def replace_nl_def pystr_def char_defs

theorem title_of_leading_header_witness:
  "first_nonempty_line (pystr ''## Setup guide'') = Some (pystr ''## Setup guide'') \<and>
   startswith_hash (pystr ''## Setup guide'') \<and>
   fst (extract_title_and_description (pystr ''## Setup guide'')) = pystr ''Setup guide''"
proof -
  have h1: "first_nonempty_line (pystr ''## Setup guide'') = Some (pystr ''## Setup guide'')"
    by (simp add: eval_defs)
  have h2: "startswith_hash (pystr ''## Setup guide'')"
    by (simp add: eval_defs)
  have r: "remove_markers (pystr ''## Setup guide'') = pystr ''Setup guide''"
    by (simp add: eval_defs)
  have e: "pystr ''Setup guide'' \<noteq> []"
    by (simp add: pystr_def)
  from title_of_leading_header [OF h1 h2]
  have "fst (extract_title_and_description (pystr ''## Setup guide'')) = pystr ''Setup guide''"
    by (simp only: r e if_False)
  with h1 h2 show ?thesis by (intro conjI)
qed

theorem title_of_bare_marker_counterexample:
  "first_nonempty_line [HASH] = Some [HASH] \<and> startswith_hash [HASH] \<and>
   remove_markers [HASH] = [] \<and>
   fst (extract_title_and_description [HASH]) = [HASH] \<and>
   fst (extract_title_and_description [HASH]) \<noteq> remove_markers [HASH]"
  by (simp add: eval_defs)

text \<open>
  C4. A text without a header line that has a non-empty line gets its first non-empty line,
  stripped, as the title. Both loops of the code look at the stripped line, so a header
  line is a line that starts with \<^verbatim>\<open>#\<close> once it is stripped, and a non-empty line is a
  line that is not empty once it is stripped.
\<close>

theorem title_without_header:
  assumes "first_header_line text = None" and "first_nonempty_line text = Some l"
  shows "fst (extract_title_and_description text) = l"
  using assms by (simp add: extract_title_and_description_def find_title_eq)

theorem title_without_header_witness:
  "first_header_line (LF # pystr ''  Plain notes  '' @ LF # pystr ''more'') = None \<and>
   first_nonempty_line (LF # pystr ''  Plain notes  '' @ LF # pystr ''more'') =
     Some (pystr ''Plain notes'') \<and>
   fst (extract_title_and_description (LF # pystr ''  Plain notes  '' @ LF # pystr ''more'')) =
     pystr ''Plain notes''"
proof -
  let ?t = "LF # pystr ''  Plain notes  '' @ LF # pystr ''more''"
  have h1: "first_header_line ?t = None"
    by (simp add: eval_defs)
  have h2: "first_nonempty_line ?t = Some (pystr ''Plain notes'')"
    by (simp add: eval_defs)
  from h1 h2 title_without_header [OF h1 h2] show ?thesis by (intro conjI)
qed

text \<open>
  A stripped line loses everything with its markers exactly when it consists of \<^verbatim>\<open>#\<close>
  characters only (\<open>remove_markers_Nil_iff\<close>). A line such as \<^verbatim>\<open># #\<close> is made of markers
  and whitespace too, but something is left of it, and that is the title.
\<close>

lemma title_of_spaced_markers:
  "remove_markers (pystr ''# #'') = [HASH] \<and>
   fst (extract_title_and_description (pystr ''# #'')) = [HASH]"
  by (simp add: eval_defs)



section \<open>The paragraphs\<close>

lemma match_ws_nl_None: "match_ws_nl s = None \<Longrightarrow> LF \<notin> set (takeWhile isspace s)"
  by (induction s) (auto split: option.splits if_splits)

lemma match_ws_nl_Some:
  "match_ws_nl s = Some r \<Longrightarrow>
     LF \<notin> set (takeWhile isspace r) \<and> (\<exists>w. s = w @ LF # r \<and> (\<forall>c\<in>set w. isspace c))"
proof (induction s)
  case Nil
  then show ?case by simp
next
  case (Cons c cs)
  show ?case
  proof (cases "isspace c \<and> match_ws_nl cs \<noteq> None")
    case True
    with Cons.prems have m: "match_ws_nl cs = Some r" by auto
    from Cons.IH [OF m] obtain w where
      "LF \<notin> set (takeWhile isspace r)" "cs = w @ LF # r" "\<forall>c\<in>set w. isspace c"
      by blast
    with True have "LF \<notin> set (takeWhile isspace r) \<and> c # cs = (c # w) @ LF # r
        \<and> (\<forall>x\<in>set (c # w). isspace x)"
      by simp
    then show ?thesis by blast
  next
    case False
    with Cons.prems have c: "c = LF" and r: "r = cs"
      by (auto split: option.splits if_splits)
    from c isspace_LF have "isspace c" by simp
    with False have "match_ws_nl cs = None" by simp
    then have "LF \<notin> set (takeWhile isspace cs)" by (rule match_ws_nl_None)
    with c r have "LF \<notin> set (takeWhile isspace r) \<and> c # cs = [] @ LF # r
        \<and> (\<forall>x\<in>set []. isspace x)"
      by simp
    then show ?thesis by blast
  qed
qed

lemma match_sep_Some:
  assumes "match_sep s = Some r"
  shows "LF \<notin> set (takeWhile isspace r) \<and>
         (\<exists>m. s = m @ r \<and> m \<noteq> [] \<and> hd m = LF \<and> (\<forall>c\<in>set m. isspace c))"
proof (cases s)
  case Nil
  with assms show ?thesis by simp
next
  case (Cons c cs)
  with assms have c: "c = LF" and m: "match_ws_nl cs = Some r"
    by (auto split: if_splits)
  from match_ws_nl_Some [OF m] obtain w where
    w: "LF \<notin> set (takeWhile isspace r)" "cs = w @ LF # r" "\<forall>c\<in>set w. isspace c"
    by blast
  let ?m = "LF # w @ [LF]"
  have "s = ?m @ r \<and> ?m \<noteq> [] \<and> hd ?m = LF \<and> (\<forall>c\<in>set ?m. isspace c)"
    using Cons c w isspace_LF by simp
  with w(1) show ?thesis by blast
qed

lemma search_sep_Some:
  "search_sep s = Some (b, a) \<Longrightarrow>
     LF \<notin> set (takeWhile isspace a) \<and>
     (\<exists>m. s = b @ m @ a \<and> m \<noteq> [] \<and> hd m = LF \<and> (\<forall>c\<in>set m. isspace c))"
proof (induction s arbitrary: b)
  case Nil
  then show ?case by simp
next
  case (Cons c cs)
  show ?case
  proof (cases "match_sep (c # cs)")
    case (Some r)
    with Cons.prems have "b = []" "a = r" by simp_all
    with match_sep_Some [OF Some] show ?thesis by simp
  next
    case None
    with Cons.prems obtain b' where b': "search_sep cs = Some (b', a)" "b = c # b'"
      by (auto split: option.splits)
    from Cons.IH [OF b'(1)] b'(2) show ?thesis by auto
  qed
qed

lemma search_sep_nonblank:
  "search_sep s = Some (b, a) \<Longrightarrow> LF \<notin> set (takeWhile isspace s) \<Longrightarrow> \<exists>c\<in>set b. \<not> isspace c"
proof (induction s arbitrary: b)
  case Nil
  then show ?case by simp
next
  case (Cons c cs)
  have no_match: "match_sep (c # cs) = None"
  proof (cases "c = LF")
    case True
    with Cons.prems(2) isspace_LF show ?thesis by simp
  next
    case False
    then show ?thesis by simp
  qed
  with Cons.prems(1) obtain b' where b': "search_sep cs = Some (b', a)" "b = c # b'"
    by (auto split: option.splits)
  show ?case
  proof (cases "isspace c")
    case True
    with Cons.prems(2) have "LF \<notin> set (takeWhile isspace cs)" by simp
    with Cons.IH [OF b'(1)] b'(2) show ?thesis by simp
  next
    case False
    with b'(2) show ?thesis by simp
  qed
qed

lemma re_split_nonblank:
  "s \<noteq> [] \<Longrightarrow> \<not> isspace (last s) \<Longrightarrow> LF \<notin> set (takeWhile isspace s) \<Longrightarrow>
     \<forall>p\<in>set (re_split s). \<exists>c\<in>set p. \<not> isspace c"
proof (induction s rule: re_split.induct)
  case (1 s)
  show ?case
  proof (cases "search_sep s")
    case None
    then have "re_split s = [s]" by (simp add: re_split.simps)
    moreover have "last s \<in> set s" using "1.prems"(1) by simp
    ultimately show ?thesis using "1.prems"(2) by auto
  next
    case (Some ba)
    obtain b a where ba: "ba = (b, a)" by (cases ba)
    with Some have s: "search_sep s = Some (b, a)" by simp
    then have split: "re_split s = b # re_split a" by (simp add: re_split.simps)
    from search_sep_Some [OF s] obtain m where
      m: "LF \<notin> set (takeWhile isspace a)" "s = b @ m @ a" "m \<noteq> []" "\<forall>c\<in>set m. isspace c"
      by blast
    have a: "a \<noteq> []"
    proof
      assume "a = []"
      with m(2,3) have "last s = last m" by simp
      with m(3,4) have "isspace (last s)" by simp
      with "1.prems"(2) show False by contradiction
    qed
    with m(2) have "last a = last s" by simp
    with "1.prems"(2) have "\<not> isspace (last a)" by simp
    with "1.IH" [OF s refl a _ m(1)] have "\<forall>p\<in>set (re_split a). \<exists>c\<in>set p. \<not> isspace c" .
    moreover have "\<exists>c\<in>set b. \<not> isspace c"
      using s "1.prems"(3) by (rule search_sep_nonblank)
    ultimately show ?thesis using split by simp
  qed
qed

lemma re_split_strip_nonblank:
  assumes "strip text \<noteq> []"
  shows "\<forall>p\<in>set (re_split (strip text)). strip p \<noteq> []"
proof -
  have "trimmed (strip text)" by (rule trimmed_strip)
  with assms have h: "\<not> isspace (hd (strip text))" and l: "\<not> isspace (last (strip text))"
    by (simp_all add: trimmed_def)
  from assms h have "takeWhile isspace (strip text) = []"
    by (cases "strip text") simp_all
  then have "LF \<notin> set (takeWhile isspace (strip text))" by simp
  with assms l have "\<forall>p\<in>set (re_split (strip text)). \<exists>c\<in>set p. \<not> isspace c"
    by (intro re_split_nonblank)
  then show ?thesis by (simp add: strip_eq_Nil_iff)
qed

section \<open>The description\<close>

lemma desc_loop_find:
  "\<forall>p\<in>set ps. strip p \<noteq> [] \<Longrightarrow>
     desc_loop ps = map_option (\<lambda>p. strip (replace_nl p)) (find not_header (map strip ps))"
  by (induction ps) (simp_all add: Let_def not_header_def)

lemma desc_loop_Some:
  "desc_loop ps = Some d \<Longrightarrow>
     \<exists>p. p \<noteq> [] \<and> trimmed p \<and> \<not> startswith_hash p \<and> d = strip (replace_nl p)"
proof (induction ps)
  case Nil
  then show ?case by simp
next
  case (Cons q qs)
  show ?case
  proof (cases "strip q = [] \<or> startswith_hash (strip q)")
    case True
    with Cons.prems have "desc_loop qs = Some d"
      by (auto simp: Let_def split: if_splits)
    then show ?thesis by (rule Cons.IH)
  next
    case False
    with Cons.prems have "d = strip (replace_nl (strip q))" by (auto simp: Let_def)
    with False trimmed_strip [of q] show ?thesis by blast
  qed
qed

lemma LF_notin_replace_nl: "LF \<notin> set (replace_nl s)"
  by (auto simp: replace_nl_def LF_def SPACE_def)

lemma strip_Cons_nonspace:
  assumes "\<not> isspace x"
  shows "\<exists>ys. strip (x # xs) = x # ys"
proof -
  have "\<exists>zs. dropWhile isspace (rev xs @ [x]) = zs @ [x]"
    using assms by (simp add: dropWhile_append)
  then obtain zs where "dropWhile isspace (rev xs @ [x]) = zs @ [x]" ..
  with assms have "strip (x # xs) = x # rev zs"
    by (simp add: strip_def)
  then show ?thesis ..
qed

lemma desc_loop_not_header:
  assumes "desc_loop ps = Some d"
  shows "\<not> startswith_hash d"
proof -
  from desc_loop_Some [OF assms] obtain p where
    p: "p \<noteq> []" "trimmed p" "\<not> startswith_hash p" "d = strip (replace_nl p)"
    by blast
  then obtain x xs where x: "p = x # xs" by (cases p) auto
  with p(2) have sp: "\<not> isspace x" by (simp add: trimmed_def)
  with isspace_LF have "x \<noteq> LF" by auto
  with x have "replace_nl p = x # replace_nl xs" by (simp add: replace_nl_def)
  with strip_Cons_nonspace [OF sp] p(4) obtain ys where "d = x # ys" by metis
  with p(3) x show ?thesis by simp
qed

lemma find_desc_blank: "strip text = [] \<Longrightarrow> find_desc text = None"
  by (simp add: find_desc_def re_split_Nil strip_Nil)

lemma find_desc_eq:
  assumes "strip text \<noteq> []"
  shows "find_desc text =
           map_option (\<lambda>p. strip (replace_nl p)) (find not_header (paragraphs text))"
  unfolding find_desc_def paragraphs_def
  using re_split_strip_nonblank [OF assms] by (rule desc_loop_find)

text \<open>
  C2. The description is the first of the stripped paragraphs of the stripped text (split at
  \<^verbatim>\<open>\n\s*\n\<close>) that does not start with \<^verbatim>\<open>#\<close>, with every newline turned into a space
  and then stripped, and the empty string when there is no such paragraph; it never starts
  with \<^verbatim>\<open>#\<close>.
\<close>

theorem description_is_first_plain_paragraph:
  "snd (extract_title_and_description text) = first_paragraph_description text \<and>
   \<not> startswith_hash (snd (extract_title_and_description text))"
proof -
  have eq: "or_empty (find_desc text) = first_paragraph_description text"
  proof (cases "strip text = []")
    case True
    then have "first_paragraph_description text = []"
      by (simp add: first_paragraph_description_def paragraphs_def re_split_Nil strip_Nil
          not_header_def replace_nl_def)
    with True show ?thesis by (simp add: find_desc_blank)
  next
    case False
    then show ?thesis
      by (simp add: find_desc_eq first_paragraph_description_def split: option.splits)
  qed
  have "\<not> startswith_hash (or_empty (find_desc text))"
  proof (cases "find_desc text")
    case None
    then show ?thesis by simp
  next
    case (Some d)
    then have "desc_loop (re_split (strip text)) = Some d" by (simp add: find_desc_def)
    then have "\<not> startswith_hash d" by (rule desc_loop_not_header)
    with Some show ?thesis by simp
  qed
  with eq show ?thesis by (simp add: extract_title_and_description_def)
qed

theorem description_is_first_plain_paragraph_witness:
  "first_paragraph_description
     (pystr ''# Hi'' @ [LF, LF] @ pystr '' ## Sub'' @ [LF, SPACE, LF] @ pystr ''a b.'' @ LF #
      pystr ''c'' @ [LF, LF] @ pystr ''d'') = pystr ''a b. c'' \<and>
   snd (extract_title_and_description
     (pystr ''# Hi'' @ [LF, LF] @ pystr '' ## Sub'' @ [LF, SPACE, LF] @ pystr ''a b.'' @ LF #
      pystr ''c'' @ [LF, LF] @ pystr ''d'')) = pystr ''a b. c''"
proof -
  let ?t = "pystr ''# Hi'' @ [LF, LF] @ pystr '' ## Sub'' @ [LF, SPACE, LF] @ pystr ''a b.'' @ LF #
      pystr ''c'' @ [LF, LF] @ pystr ''d''"
  have d: "first_paragraph_description ?t = pystr ''a b. c''"
    by (simp add: eval_defs)
  from description_is_first_plain_paragraph [of ?t]
  have "snd (extract_title_and_description ?t) = first_paragraph_description ?t" ..
  with d show ?thesis by (simp only:)
qed

text \<open>
  C5. The empty text, and every text without a line that is not empty once stripped, gives
  the pair of two empty strings.
\<close>

theorem extract_blank_text:
  "extract_title_and_description [] = ([], []) \<and>
   (first_nonempty_line text = None \<longrightarrow> extract_title_and_description text = ([], []))"
proof -
  have blank: "extract_title_and_description t = ([], [])" if "first_nonempty_line t = None" for t
  proof -
    from that have lines: "\<forall>l\<in>set (splitlines t). strip l = []"
      by (simp add: first_nonempty_line_def stripped_lines_def find_None_iff nonempty_def)
    then have "\<forall>l\<in>set (splitlines t). \<not> startswith_hash (strip l)"
      by simp
    then have "header_loop (splitlines t) = None" by (rule header_loop_None)
    moreover have "fallback_loop (splitlines t) = None"
      using lines by (rule fallback_loop_None)
    ultimately have title: "find_title t = None"
      by (simp add: find_title_def)
    have "\<forall>c\<in>set t. isspace c"
      using lines by (intro splitlines_all_space) (simp add: strip_eq_Nil_iff)
    then have "strip t = []"
      by (simp add: strip_eq_Nil_iff)
    then have "find_desc t = None" by (rule find_desc_blank)
    with title show ?thesis
      by (simp add: extract_title_and_description_def)
  qed
  have "first_nonempty_line [] = None"
    by (simp add: first_nonempty_line_def stripped_lines_def)
  then have "extract_title_and_description [] = ([], [])" by (rule blank)
  with blank show ?thesis by blast
qed

theorem extract_blank_text_witness:
  "extract_title_and_description [] = ([], []) \<and>
   first_nonempty_line [SPACE, LF, CR, LF, 0x3000] = None \<and>
   extract_title_and_description [SPACE, LF, CR, LF, 0x3000] = ([], [])"
proof -
  have h: "first_nonempty_line [SPACE, LF, CR, LF, 0x3000] = None"
    by (simp add: eval_defs)
  from extract_blank_text [of "[SPACE, LF, CR, LF, 0x3000]"] h
  have "extract_title_and_description [] = ([], [])"
    and "extract_title_and_description [SPACE, LF, CR, LF, 0x3000] = ([], [])"
    by blast+
  with h show ?thesis by (intro conjI)
qed


lemma find_title_Some:
  assumes "find_title text = Some t"
  shows "\<exists>l\<in>set (stripped_lines text). t = l \<or> t = strip (re_sub_header l)"
proof (cases "first_header_line text")
  case None
  with assms have "first_nonempty_line text = Some t"
    by (simp add: find_title_eq Let_def split: option.splits)
  then have "t \<in> set (stripped_lines text)"
    by (simp add: first_nonempty_line_def find_Some_mem)
  then show ?thesis by blast
next
  case (Some l)
  then have l: "l \<in> set (stripped_lines text)"
    by (simp add: first_header_line_def find_Some_mem)
  show ?thesis
  proof (cases "first_nonempty_line text")
    case None
    with Some assms have "t = strip (re_sub_header l)"
      by (simp add: find_title_eq Let_def split: if_splits)
    with l show ?thesis by blast
  next
    case n: (Some u)
    then have u: "u \<in> set (stripped_lines text)"
      by (simp add: first_nonempty_line_def find_Some_mem)
    from Some n assms have "t = u \<or> t = strip (re_sub_header l)"
      by (simp add: find_title_eq Let_def split: if_splits)
    with l u show ?thesis by blast
  qed
qed

lemma find_title_trimmed:
  assumes "find_title text = Some t"
  shows "trimmed t \<and> LF \<notin> set t"
proof -
  from find_title_Some [OF assms] obtain l where
    l: "l \<in> set (stripped_lines text)" and t: "t = l \<or> t = strip (re_sub_header l)"
    by blast
  have "LF \<notin> set l"
    using stripped_line_no_linebreak [OF l] is_linebreak_LF by blast
  moreover have "set (strip (re_sub_header l)) \<subseteq> set l"
    using set_strip set_re_sub_header by blast
  moreover have "trimmed l" using l by (rule stripped_line_trimmed)
  moreover have "trimmed (strip (re_sub_header l))" by (rule trimmed_strip)
  ultimately show ?thesis using t by auto
qed

lemma find_desc_trimmed:
  assumes "find_desc text = Some d"
  shows "trimmed d \<and> LF \<notin> set d"
proof -
  from assms have "desc_loop (re_split (strip text)) = Some d"
    by (simp add: find_desc_def)
  from desc_loop_Some [OF this] obtain p where d: "d = strip (replace_nl p)"
    by blast
  then have "set d \<subseteq> set (replace_nl p)" by (simp add: set_strip)
  with LF_notin_replace_nl have "LF \<notin> set d" by blast
  with d trimmed_strip show ?thesis by simp
qed

text \<open>
  C10. Neither the title nor the description contains a newline, and each is equal to its
  own stripped form.
\<close>

theorem title_and_description_trimmed:
  "LF \<notin> set (fst (extract_title_and_description text)) \<and>
   LF \<notin> set (snd (extract_title_and_description text)) \<and>
   strip (fst (extract_title_and_description text)) = fst (extract_title_and_description text) \<and>
   strip (snd (extract_title_and_description text)) = snd (extract_title_and_description text)"
proof -
  have e: "trimmed []" by (simp add: trimmed_def)
  have t: "trimmed (or_empty (find_title text)) \<and> LF \<notin> set (or_empty (find_title text))"
    using e by (cases "find_title text") (simp_all add: find_title_trimmed)
  have d: "trimmed (or_empty (find_desc text)) \<and> LF \<notin> set (or_empty (find_desc text))"
    using e by (cases "find_desc text") (simp_all add: find_desc_trimmed)
  from t d show ?thesis
    by (simp add: extract_title_and_description_def strip_trimmed)
qed

theorem title_and_description_trimmed_witness:
  "extract_title_and_description (pystr ''  # T '' @ [LF, LF] @ pystr '' a'' @ LF # pystr ''b '') =
     (pystr ''T'', pystr ''a b'') \<and>
   LF \<notin> set (pystr ''T'') \<and> LF \<notin> set (pystr ''a b'') \<and>
   strip (pystr ''T'') = pystr ''T'' \<and> strip (pystr ''a b'') = pystr ''a b''"
proof -
  let ?t = "pystr ''  # T '' @ [LF, LF] @ pystr '' a'' @ LF # pystr ''b ''"
  have e: "extract_title_and_description ?t = (pystr ''T'', pystr ''a b'')"
    by (simp add: eval_defs)
  from title_and_description_trimmed [of ?t] e show ?thesis
    by (simp only: fst_conv snd_conv simp_thms)
qed

section \<open>Scanner lemmas\<close>


definition record_of :: "tree \<Rightarrow> pystr \<Rightarrow> path \<Rightarrow> item" where
  "record_of fs name p =
     \<lparr>item_path = path_str p, item_type = name, item_filename = path_name p,
      item_title = fst (extract_title_and_description (projr (read_text fs p))),
      item_description = snd (extract_title_and_description (projr (read_text fs p)))\<rparr>"

lemma scan_loop_eq:
  "scan_loop fs name ps items = items @ map (record_of fs name) (filter (readable fs) ps)"
proof (induction ps arbitrary: items)
  case Nil
  then show ?case by simp
next
  case (Cons p ps)
  show ?case
  proof (cases "readable fs p")
    case True
    then obtain content where "\<not> is_dir fs p" "read_text fs p = Inr content"
      by (cases "read_text fs p") (auto simp: readable_def)
    with True show ?thesis
      by (simp add: Cons.IH record_of_def split: prod.splits)
  next
    case False
    then show ?thesis
      by (cases "read_text fs p") (auto simp: Cons.IH readable_def)
  qed
qed

lemma main_loop_eq: "main_loop fs secs acc = acc @ concat (map (scan_of fs) secs)"
  by (induction secs arbitrary: acc) (auto simp: scan_of_def)

lemma scan_section_eq:
  "scan_section fs name dir =
     (if path_exists fs dir
      then map (record_of fs name) (filter (readable fs) (sort (glob_all fs dir)))
      else [])"
  by (simp add: scan_section_def scan_loop_eq)

lemma main_items: "doc_items (written (main fs now)) = concat (map (scan_of fs) SECTIONS)"
  by (simp add: main_def Let_def main_loop_eq)

lemma split_slash_name: "SLASH \<notin> set c \<Longrightarrow> split_slash c = [c]"
  by (induction c) auto

lemma split_slash_append:
  "SLASH \<notin> set c \<Longrightarrow> split_slash (c @ SLASH # r) = c # split_slash r"
  by (induction c) auto

lemma split_slash_path_str:
  "p \<noteq> [] \<Longrightarrow> list_all wf_name p \<Longrightarrow> split_slash (path_str p) = p"
proof (induction p rule: path_str.induct)
  case 1
  then show ?case by simp
next
  case (2 c)
  then show ?case by (simp add: wf_name_def split_slash_name)
next
  case (3 c d ds)
  then show ?case by (simp add: wf_name_def split_slash_append)
qed

lemma glob_all_wf:
  assumes "wf_tree fs" and "p \<in> set (glob_all fs dir)"
  shows "p \<noteq> [] \<and> list_all wf_name p"
proof -
  from assms(2) have "p \<in> set (map fst fs)" and "strict_prefix dir p"
    by (simp_all add: glob_all_def)
  moreover from assms(1) have "\<forall>q\<in>set (map fst fs). list_all wf_name q"
    by (simp add: wf_tree_def list_all_iff)
  ultimately show ?thesis by auto
qed

lemma item_parts_record_of:
  "p \<noteq> [] \<Longrightarrow> list_all wf_name p \<Longrightarrow> item_parts (record_of fs name p) = p"
  by (simp add: item_parts_def record_of_def split_slash_path_str)

lemma scan_section_parts:
  assumes "wf_tree fs" and "path_exists fs dir"
  shows "map item_parts (scan_section fs name dir) = filter (readable fs) (sort (glob_all fs dir))"
proof -
  have "item_parts (record_of fs name p) = p" if "p \<in> set (glob_all fs dir)" for p
    using glob_all_wf [OF assms(1) that] by (simp add: item_parts_record_of)
  then have "map item_parts (map (record_of fs name) ps) = ps"
    if "set ps \<subseteq> set (glob_all fs dir)" for ps
    using that by (induction ps) simp_all
  moreover have "set (filter (readable fs) (sort (glob_all fs dir))) \<subseteq> set (glob_all fs dir)"
    by auto
  ultimately show ?thesis using assms(2) by (simp only: scan_section_eq if_True)
qed

lemma scan_section_sorted:
  assumes "wf_tree fs"
  shows "sorted (map item_parts (scan_section fs name dir))"
proof (cases "path_exists fs dir")
  case True
  have "sorted (map id (filter (readable fs) (sort (glob_all fs dir))))"
    by (rule sorted_filter) simp
  with scan_section_parts [OF assms True] show ?thesis by simp
next
  case False
  then show ?thesis by (simp add: scan_section_def)
qed

lemma same_entries_same_scan:
  assumes "distinct (map fst fs)" and "mset fs' = mset fs"
  shows "scan_section fs' name dir = scan_section fs name dir"
proof -
  from assms(2) have "mset (map fst fs') = mset (map fst fs)" by simp
  with assms(1) have "distinct (map fst fs')"
    using mset_eq_imp_distinct_iff by blast
  moreover from assms(2) have "set fs' = set fs" by (rule mset_eq_setD)
  ultimately have m: "map_of fs' = map_of fs"
    using assms(1) by (simp add: map_of_inject_set)
  then have same: "path_exists fs' = path_exists fs" "readable fs' = readable fs"
    "record_of fs' name = record_of fs name"
    by (simp_all add: fun_eq_iff path_exists_def readable_def is_dir_def read_text_def
        record_of_def)
  from assms(2) have "mset (glob_all fs' dir) = mset (glob_all fs dir)"
    by (simp add: glob_all_def)
  then have "mset (sort (glob_all fs dir)) = mset (glob_all fs' dir)" by simp
  then have "sort (glob_all fs' dir) = sort (glob_all fs dir)"
    by (rule properties_for_sort) simp
  with same show ?thesis by (simp add: scan_section_eq)
qed

text \<open>
  C3. Two runs over the same entries, handed out in any two orders and at any two times,
  write the same items. The items are those of \<^verbatim>\<open>prompts\<close>, then those of \<^verbatim>\<open>toolsets\<close>,
  then those of \<^verbatim>\<open>chatmodes\<close>, and within a section the paths of the records, read as
  lists of components, are sorted.
\<close>

theorem scan_is_deterministic:
  assumes "wf_tree fs" and "mset fs' = mset fs"
  shows "doc_items (written (main fs' now')) = doc_items (written (main fs now)) \<and>
         doc_items (written (main fs now)) =
           scan_section fs (pystr ''prompts'') (GITHUB_DIR @ [pystr ''prompts'']) @
           scan_section fs (pystr ''toolsets'') (GITHUB_DIR @ [pystr ''toolsets'']) @
           scan_section fs (pystr ''chatmodes'') (GITHUB_DIR @ [pystr ''chatmodes'']) \<and>
         sorted (map item_parts (scan_section fs name dir))"
proof -
  from assms(1) have d: "distinct (map fst fs)" by (simp add: wf_tree_def)
  have "scan_of fs' = scan_of fs"
    using same_entries_same_scan [OF d assms(2)] by (simp add: fun_eq_iff scan_of_def)
  then have "doc_items (written (main fs' now')) = doc_items (written (main fs now))"
    by (simp add: main_items)
  moreover have "doc_items (written (main fs now)) =
           scan_section fs (pystr ''prompts'') (GITHUB_DIR @ [pystr ''prompts'']) @
           scan_section fs (pystr ''toolsets'') (GITHUB_DIR @ [pystr ''toolsets'']) @
           scan_section fs (pystr ''chatmodes'') (GITHUB_DIR @ [pystr ''chatmodes''])"
    by (simp add: main_items SECTIONS_def scan_of_def)
  moreover have "sorted (map item_parts (scan_section fs name dir))"
    using assms(1) by (rule scan_section_sorted)
  ultimately show ?thesis by (intro conjI)
qed

definition example_tree :: tree where
  "example_tree =
     [(GITHUB_DIR, Dir),
      (GITHUB_DIR @ [pystr ''prompts''], Dir),
      (GITHUB_DIR @ [pystr ''prompts'', pystr ''b.md''], File (Inr (pystr ''# B''))),
      (GITHUB_DIR @ [pystr ''prompts'', pystr ''a''], Dir),
      (GITHUB_DIR @ [pystr ''prompts'', pystr ''a-b.md''], File (Inr [])),
      (GITHUB_DIR @ [pystr ''prompts'', pystr ''a'', pystr ''x.md''], File (Inr (pystr ''X''))),
      (GITHUB_DIR @ [pystr ''prompts'', pystr ''bad.bin''], File (Inl UnicodeDecodeError)),
      (GITHUB_DIR @ [pystr ''chatmodes''], Dir),
      (GITHUB_DIR @ [pystr ''chatmodes'', pystr ''c.md''], File (Inr (pystr ''## C'')))]"

lemmas scan_defs = example_tree_def GITHUB_DIR_def SECTIONS_def scan_section_def
  path_exists_def is_dir_def read_text_def glob_all_def wf_tree_def wf_name_def without_def
  other_than_def scan_of_def main_def

lemma example_wf: "wf_tree example_tree"
  by (simp add: scan_defs pystr_def SLASH_def)

lemma example_sorted:
  "sort (glob_all example_tree (GITHUB_DIR @ [pystr ''prompts''])) =
    [GITHUB_DIR @ [pystr ''prompts'', pystr ''a''],
     GITHUB_DIR @ [pystr ''prompts'', pystr ''a'', pystr ''x.md''],
     GITHUB_DIR @ [pystr ''prompts'', pystr ''a-b.md''],
     GITHUB_DIR @ [pystr ''prompts'', pystr ''b.md''],
     GITHUB_DIR @ [pystr ''prompts'', pystr ''bad.bin'']]"
  by (simp add: scan_defs pystr_def)

lemma example_prompts:
  "scan_section example_tree (pystr ''prompts'') (GITHUB_DIR @ [pystr ''prompts'']) =
    [\<lparr>item_path = pystr ''.github/prompts/a/x.md'', item_type = pystr ''prompts'',
      item_filename = pystr ''x.md'', item_title = pystr ''X'', item_description = pystr ''X''\<rparr>,
     \<lparr>item_path = pystr ''.github/prompts/a-b.md'', item_type = pystr ''prompts'',
      item_filename = pystr ''a-b.md'', item_title = [], item_description = []\<rparr>,
     \<lparr>item_path = pystr ''.github/prompts/b.md'', item_type = pystr ''prompts'',
      item_filename = pystr ''b.md'', item_title = pystr ''B'', item_description = []\<rparr>]"
  by (simp add: scan_defs eval_defs)

lemma example_toolsets:
  "scan_section example_tree (pystr ''toolsets'') (GITHUB_DIR @ [pystr ''toolsets'']) = []"
  by (simp add: scan_defs pystr_def)

lemma example_chatmodes:
  "scan_section example_tree (pystr ''chatmodes'') (GITHUB_DIR @ [pystr ''chatmodes'']) =
    [\<lparr>item_path = pystr ''.github/chatmodes/c.md'', item_type = pystr ''chatmodes'',
      item_filename = pystr ''c.md'', item_title = pystr ''C'', item_description = []\<rparr>]"
  by (simp add: scan_defs eval_defs)

theorem scan_is_deterministic_witness:
  "wf_tree example_tree \<and> mset (rev example_tree) = mset example_tree \<and>
   doc_items (written (main (rev example_tree) (pystr ''2025-01-02T03:04:05''))) =
     doc_items (written (main example_tree (pystr ''2024-01-01T00:00:00''))) \<and>
   map item_path (doc_items (written (main example_tree (pystr ''2024-01-01T00:00:00'')))) =
     [pystr ''.github/prompts/a/x.md'', pystr ''.github/prompts/a-b.md'',
      pystr ''.github/prompts/b.md'', pystr ''.github/chatmodes/c.md'']"
proof -
  have m: "mset (rev example_tree) = mset example_tree" by simp
  note d = scan_is_deterministic [OF example_wf m,
      where now' = "pystr ''2025-01-02T03:04:05''" and now = "pystr ''2024-01-01T00:00:00''"
        and name = "[]" and dir = "[]"]
  from d have same: "doc_items (written (main (rev example_tree) (pystr ''2025-01-02T03:04:05''))) =
     doc_items (written (main example_tree (pystr ''2024-01-01T00:00:00'')))"
    by (rule conjunct1)
  from d have "doc_items (written (main example_tree (pystr ''2024-01-01T00:00:00''))) =
      scan_section example_tree (pystr ''prompts'') (GITHUB_DIR @ [pystr ''prompts'']) @
      scan_section example_tree (pystr ''toolsets'') (GITHUB_DIR @ [pystr ''toolsets'']) @
      scan_section example_tree (pystr ''chatmodes'') (GITHUB_DIR @ [pystr ''chatmodes''])"
    by (rule conjunct1 [OF conjunct2])
  then have "map item_path (doc_items (written (main example_tree (pystr ''2024-01-01T00:00:00'')))) =
     [pystr ''.github/prompts/a/x.md'', pystr ''.github/prompts/a-b.md'',
      pystr ''.github/prompts/b.md'', pystr ''.github/chatmodes/c.md'']"
    by (simp add: example_prompts example_toolsets example_chatmodes)
  with example_wf m same show ?thesis by (intro conjI)
qed

section \<open>Missing directories and unreadable files\<close>













end
